theory Spec2Isabelle
  imports Main "HOL-Library.Word"
begin

section \<open>Outcomes of an operation\<close>

text \<open>
  An operation of the library either returns a value or fails. A failure is a thrown C++
  exception (\<open>Thrown\<close>: \<^verbatim>\<open>std::runtime_error\<close> in the deleter of memory-hacks.hpp,
  \<^verbatim>\<open>boost::bad_get\<close> from \<^verbatim>\<open>boost::get\<close>), or it is undefined behaviour
  (\<open>UndefinedBehaviour\<close>: a dereference of a null pointer or a destructor run on storage
  that holds no live object, neither of which the source checks). \<open>OutOfFuel\<close> belongs
  to the model only: the nesting budget of \<^verbatim>\<open>Stream::tail\<close> is used up.
\<close>

datatype error = Thrown string | UndefinedBehaviour | OutOfFuel

definition and_then :: "error + 'a \<Rightarrow> ('a \<Rightarrow> error + 'b) \<Rightarrow> error + 'b" where
  "and_then m k = (case m of Inl e \<Rightarrow> Inl e | Inr x \<Rightarrow> k x)"

definition raised :: "error + 'a \<Rightarrow> bool" where
  "raised r = (case r of Inl (Thrown msg) \<Rightarrow> True | _ \<Rightarrow> False)"

section \<open>memory-hacks.hpp\<close>

text \<open>
  \<^verbatim>\<open>
  template<typename T, typename ...Arg>
  T& emplace(T& t, Arg&& ...arg) {
      t.~T();
      new (&t) T(std::forward<Arg>(arg)...);
      return t;
  }
  \<close>
  Storage holds the live object of each location (\<open>objects\<close>; \<open>None\<close> is storage
  that holds no live object) and the values on which a destructor has run, latest first
  (\<open>destructed\<close>): what a destructor does lies outside the storage of the object, so its
  run is recorded.

  The arguments are forwarded by reference and read by the constructor, after the
  destructor has run. An argument is a value held outside the storage (\<open>Value\<close>), or it
  refers to the object at a location of the storage, of which the constructor reads a part
  (\<open>Reference\<close>; the whole object with \<open>id\<close>, as a copy constructor does). To read
  an object that is not live is undefined behaviour. The constructor of \<open>T\<close> is the
  function \<open>ctor\<close>; it returns the constructed value or throws.
\<close>

record ('l, 'v) storage =
  objects :: "'l \<rightharpoonup> 'v"
  destructed :: "'v list"

datatype ('l, 'v, 'x) argument = Value 'x | Reference 'l "'v \<Rightarrow> 'x"

definition read_argument :: "('l, 'v) storage \<Rightarrow> ('l, 'v, 'x) argument \<Rightarrow> error + 'x" where
  "read_argument s arg =
     (case arg of
        Value x \<Rightarrow> Inr x
      | Reference l part \<Rightarrow>
          (case objects s l of None \<Rightarrow> Inl UndefinedBehaviour | Some v \<Rightarrow> Inr (part v)))"

text \<open>\<^verbatim>\<open>t.~T()\<close>: undefined behaviour on storage without a live object.\<close>

definition destroy :: "('l, 'v) storage \<Rightarrow> 'l \<Rightarrow> error + ('l, 'v) storage" where
  "destroy s t =
     (case objects s t of
        None \<Rightarrow> Inl UndefinedBehaviour
      | Some old \<Rightarrow> Inr (s\<lparr>objects := (objects s)(t := None), destructed := old # destructed s\<rparr>))"

text \<open>\<^verbatim>\<open>new (&t) T(std::forward<Arg>(arg)...)\<close>.\<close>

definition placement_new ::
  "('l, 'v) storage \<Rightarrow> 'l \<Rightarrow> ('x \<Rightarrow> error + 'v) \<Rightarrow> ('l, 'v, 'x) argument \<Rightarrow> error + ('l, 'v) storage" where
  "placement_new s t ctor arg =
     and_then (read_argument s arg) (\<lambda>x.
     and_then (ctor x) (\<lambda>v. Inr (s\<lparr>objects := (objects s)(t \<mapsto> v)\<rparr>)))"

definition emplace ::
  "('l, 'v) storage \<Rightarrow> 'l \<Rightarrow> ('x \<Rightarrow> error + 'v) \<Rightarrow> ('l, 'v, 'x) argument \<Rightarrow> error + ('l \<times> ('l, 'v) storage)" where
  "emplace s t ctor arg =
     and_then (destroy s t) (\<lambda>s1.
     and_then (placement_new s1 t ctor arg) (\<lambda>s2. Inr (t, s2)))"

text \<open>An argument refers to the storage of \<open>t\<close>.\<close>

definition refers_to :: "('l, 'v, 'x) argument \<Rightarrow> 'l \<Rightarrow> bool" where
  "refers_to arg t = (case arg of Value x \<Rightarrow> False | Reference l part \<Rightarrow> l = t)"

text \<open>
  \<^verbatim>\<open>AlignedMaybeUninitializedDeleter::initialized()\<close>, with the field
  \<^verbatim>\<open>std::unique_ptr<bool> initialized_\<close> as \<open>initialized_ptr\<close>: the one place of the
  library that checks for a used-up state and throws.
  \<^verbatim>\<open>
  bool& initialized() {
      if(initialized_) { return *initialized_; }
      else { throw std::runtime_error("An AlignedMaybeUninitializedDeleter may be used at most once"); }
  }
  \<close>
\<close>

datatype AlignedMaybeUninitializedDeleter = AlignedMaybeUninitializedDeleter (initialized_ptr: "bool option")

definition initialized :: "AlignedMaybeUninitializedDeleter \<Rightarrow> error + bool" where
  "initialized d =
     (case initialized_ptr d of
        Some b \<Rightarrow> Inr b
      | None \<Rightarrow> Inl (Thrown ''An AlignedMaybeUninitializedDeleter may be used at most once''))"

section \<open>unique-function.hpp\<close>

text \<open>
  \<^verbatim>\<open>UniqueFunction<R(Args...)>\<close> owns its functor through
  \<^verbatim>\<open>std::unique_ptr<FunctionHolderBase> fh_\<close>; the field is \<open>fh\<close> here, \<open>None\<close> the
  null pointer. The virtual \<^verbatim>\<open>FunctionHolder::operator()\<close> is the function \<open>invoke\<close>
  that runs the wrapped functor.
  \<^verbatim>\<open>
  UniqueFunction(FA && f) : fh_(new FunctionHolder<FA>(std::forward<FA>(f))) {}
  UniqueFunction(UniqueFunction<R(Args...)> && uf) : fh_(std::move(uf.fh_)) {}
  R operator()(Args&& ...args) { return std::invoke(*fh_, std::forward<Args>(args)...); }
  explicit operator bool() const noexcept { return (bool)fh_; }
  \<close>
  The move constructor returns the new handle and the moved-from source, in this order.
\<close>

datatype 'f UniqueFunction = UniqueFunction (fh: "'f option")

definition UniqueFunction_new :: "'f \<Rightarrow> 'f UniqueFunction" where
  "UniqueFunction_new f = UniqueFunction (Some f)"

definition UniqueFunction_move :: "'f UniqueFunction \<Rightarrow> 'f UniqueFunction \<times> 'f UniqueFunction" where
  "UniqueFunction_move uf = (UniqueFunction (fh uf), UniqueFunction None)"

definition UniqueFunction_call :: "('f \<Rightarrow> error + 'r) \<Rightarrow> 'f UniqueFunction \<Rightarrow> error + 'r" where
  "UniqueFunction_call invoke uf =
     (case fh uf of None \<Rightarrow> Inl UndefinedBehaviour | Some f \<Rightarrow> invoke f)"

definition UniqueFunction_bool :: "'f UniqueFunction \<Rightarrow> bool" where
  "UniqueFunction_bool uf = (fh uf \<noteq> None)"

section \<open>stream.hpp\<close>

subsection \<open>Data\<close>

text \<open>
  A \<^verbatim>\<open>std::shared_ptr<Stream<E>>\<close> (\<^verbatim>\<open>StreamT\<close>) is an optional address, \<open>None\<close>
  the null pointer. Nodes are never reclaimed in the model.

  The functors that the library stores in a tail slot are of two kinds. \<open>MapF\<close> is the
  local class of \<^verbatim>\<open>Stream::map\<close>, with its fields \<^verbatim>\<open>src_\<close> and \<^verbatim>\<open>transform_\<close>;
  \<^verbatim>\<open>src_\<close> is one of the two lambdas of the source,
  \<^verbatim>\<open>[sharedThis = shared_from_this()](){ return sharedThis; }\<close> and
  \<^verbatim>\<open>[src](){ return src->tail(); }\<close>. \<open>Client\<close> is a functor of the caller, of the
  shape of the repository's \<^verbatim>\<open>FibStreamF\<close> and \<^verbatim>\<open>ROT13StreamF\<close>: run on the state
  outside the stream (\<open>'g\<close>, the \<^verbatim>\<open>std::istream\<close> of \<^verbatim>\<open>ROT13StreamF\<close>), it returns
  \<^verbatim>\<open>Nil()\<close> or \<^verbatim>\<open>Cell(e, next functor)\<close>. The transform and the client functors are
  taken to return; a transform maps \<open>'e\<close> to \<open>'e\<close>, so one memory holds the source and
  the mapped stream.
\<close>

type_synonym addr = nat
type_synonym StreamT = "addr option"

codatatype ('e, 'g) generator =
  Generator (run: "'g \<Rightarrow> ('e \<times> ('e, 'g) generator) option \<times> 'g")

datatype src = SharedThis addr | SrcTail addr

datatype ('e, 'g) callable = Client "('e, 'g) generator" | MapF src "'e \<Rightarrow> 'e"

text \<open>\<^verbatim>\<open>boost::variant<StreamT, F> tail_\<close>; \<open>which\<close> is the index of the alternative.\<close>

datatype ('e, 'g) variant = StreamT_alt StreamT | F_alt "('e, 'g) callable UniqueFunction"

text \<open>
  The fields \<^verbatim>\<open>head_\<close> and \<^verbatim>\<open>tail_\<close> of all nodes are two maps from addresses;
  \<open>next_addr\<close> is the address that \<^verbatim>\<open>std::make_shared\<close> hands out next; \<open>env\<close> is
  the state outside the stream that client functors read and write; \<open>discarded\<close>
  are the contents of tail slots on which the destructor has run, latest first;
  \<open>invoked\<close> is instrumentation: the nodes whose pending functor \<^verbatim>\<open>tail()\<close> has
  run, latest first.
\<close>

record ('e, 'g) memory =
  head_mem :: "addr \<rightharpoonup> 'e"
  tail_mem :: "addr \<rightharpoonup> ('e, 'g) variant"
  next_addr :: addr
  env :: 'g
  discarded :: "('e, 'g) variant list"
  invoked :: "addr list"

type_synonym ('e, 'g) tailfn = "('e, 'g) memory \<Rightarrow> addr \<Rightarrow> error + (StreamT \<times> ('e, 'g) memory)"

subsection \<open>Construction and access\<close>

definition which :: "('e, 'g) variant \<Rightarrow> nat" where
  "which v = (case v of StreamT_alt r \<Rightarrow> 0 | F_alt uf \<Rightarrow> 1)"

definition get_F :: "('e, 'g) variant \<Rightarrow> error + ('e, 'g) callable UniqueFunction" where
  "get_F v = (case v of F_alt uf \<Rightarrow> Inr uf | StreamT_alt r \<Rightarrow> Inl (Thrown ''boost::bad_get''))"

definition get_StreamT :: "('e, 'g) variant \<Rightarrow> error + StreamT" where
  "get_StreamT v = (case v of StreamT_alt r \<Rightarrow> Inr r | F_alt uf \<Rightarrow> Inl (Thrown ''boost::bad_get''))"

definition Stream_Nil :: StreamT where
  "Stream_Nil = None"

text \<open>
  \<^verbatim>\<open>Cell(e, t)\<close> is \<^verbatim>\<open>makeShared\<close>: one new node, its \<^verbatim>\<open>tail_\<close> constructed from
  \<open>t\<close>, which is a \<^verbatim>\<open>StreamT\<close> or a functor.
\<close>

definition Cell :: "'e \<Rightarrow> ('e, 'g) variant \<Rightarrow> ('e, 'g) memory \<Rightarrow> StreamT \<times> ('e, 'g) memory" where
  "Cell e t st =
     (Some (next_addr st),
      st\<lparr>head_mem := (head_mem st)(next_addr st \<mapsto> e),
         tail_mem := (tail_mem st)(next_addr st \<mapsto> t),
         next_addr := Suc (next_addr st)\<rparr>)"

text \<open>\<^verbatim>\<open>const E& head() const { return head_; }\<close> on the node at \<open>a\<close>.\<close>

definition head :: "('e, 'g) memory \<Rightarrow> addr \<Rightarrow> error + 'e" where
  "head st a = (case head_mem st a of None \<Rightarrow> Inl UndefinedBehaviour | Some e \<Rightarrow> Inr e)"

subsection \<open>The functors and tail()\<close>

text \<open>
  \<^verbatim>\<open>
  MapStreamT<Transform> operator()() {
      auto src = src_();
      if (src) {
          auto transformed_head = transform_(src->head());
          return MapCellT<Transform>::Cell(std::move(transformed_head),
                   MapF([src](){ return src->tail(); }, std::move(transform_)));
      } else {
          return MapCellT<Transform>::Nil();
      }
  }
  \<close>
  \<open>tailf\<close> is \<^verbatim>\<open>Stream::tail\<close>, as far as the nesting budget allows.
\<close>

definition src_call :: "('e, 'g) tailfn \<Rightarrow> src \<Rightarrow> ('e, 'g) memory \<Rightarrow> error + (StreamT \<times> ('e, 'g) memory)" where
  "src_call tailf s st = (case s of SharedThis a \<Rightarrow> Inr (Some a, st) | SrcTail a \<Rightarrow> tailf st a)"

definition MapF_call ::
  "('e, 'g) tailfn \<Rightarrow> src \<Rightarrow> ('e \<Rightarrow> 'e) \<Rightarrow> ('e, 'g) memory \<Rightarrow> error + (StreamT \<times> ('e, 'g) memory)" where
  "MapF_call tailf src_f transform_f st =
     and_then (src_call tailf src_f st) (\<lambda>(src, st1).
       case src of
         Some a \<Rightarrow>
           and_then (head st1 a) (\<lambda>h.
             Inr (Cell (transform_f h)
                    (F_alt (UniqueFunction_new (MapF (SrcTail a) transform_f))) st1))
       | None \<Rightarrow> Inr (Stream_Nil, st1))"

definition Client_call :: "('e, 'g) generator \<Rightarrow> ('e, 'g) memory \<Rightarrow> error + (StreamT \<times> ('e, 'g) memory)" where
  "Client_call g st =
     (case run g (env st) of
        (None, env1) \<Rightarrow> Inr (Stream_Nil, st\<lparr>env := env1\<rparr>)
      | (Some (e, g1), env1) \<Rightarrow>
          Inr (Cell e (F_alt (UniqueFunction_new (Client g1))) (st\<lparr>env := env1\<rparr>)))"

definition F_invoke ::
  "('e, 'g) tailfn \<Rightarrow> ('e, 'g) memory \<Rightarrow> ('e, 'g) callable \<Rightarrow> error + (StreamT \<times> ('e, 'g) memory)" where
  "F_invoke tailf st f = (case f of Client g \<Rightarrow> Client_call g st | MapF s t \<Rightarrow> MapF_call tailf s t st)"

text \<open>
  \<^verbatim>\<open>
  const StreamT& tail() const {
      if(tail_.which()) {
          detail::emplace(tail_, boost::get<F>(tail_)());
      }
      return boost::get<StreamT>(tail_);
  }
  \<close>
  The functor runs first (it is the argument of \<^verbatim>\<open>emplace\<close>), then the slot is
  constructed anew from its result, a temporary outside the storage of the slots. The
  storage that \<^verbatim>\<open>emplace\<close> works on is that of the tail slots. The node is recorded
  in \<open>invoked\<close> when its functor is run.
\<close>

definition tail_body :: "('e, 'g) tailfn \<Rightarrow> ('e, 'g) memory \<Rightarrow> addr \<Rightarrow> error + (StreamT \<times> ('e, 'g) memory)" where
  "tail_body tailf st a =
     (case tail_mem st a of
        None \<Rightarrow> Inl UndefinedBehaviour
      | Some v \<Rightarrow>
          and_then
            (if which v \<noteq> 0 then
               and_then (get_F v) (\<lambda>uf.
               and_then (UniqueFunction_call (F_invoke tailf (st\<lparr>invoked := a # invoked st\<rparr>)) uf) (\<lambda>(r, st1).
               and_then (emplace \<lparr>objects = tail_mem st1, destructed = discarded st1\<rparr> a
                           (\<lambda>r. Inr (StreamT_alt r)) (Value r)) (\<lambda>(t, m).
                 Inr (st1\<lparr>tail_mem := objects m, discarded := destructed m\<rparr>))))
             else Inr st)
            (\<lambda>st2.
               case tail_mem st2 a of
                 None \<Rightarrow> Inl UndefinedBehaviour
               | Some v2 \<Rightarrow> and_then (get_StreamT v2) (\<lambda>r. Inr (r, st2))))"

text \<open>
  A functor of \<open>MapF\<close> calls \<^verbatim>\<open>tail()\<close> of a source node, whose functor may be a
  \<open>MapF\<close> again. The fuel bounds this nesting; a call that needs a deeper nesting is
  \<open>OutOfFuel\<close>.
\<close>

primrec tail_fuel :: "nat \<Rightarrow> ('e, 'g) tailfn" where
  "tail_fuel 0 = tail_body (\<lambda>st a. Inl OutOfFuel)"
| "tail_fuel (Suc n) = tail_body (tail_fuel n)"

text \<open>
  A functor stored in a node refers only to nodes that were allocated before that node
  (the closure exists before \<^verbatim>\<open>Cell\<close> is called with it), so the nesting under the
  node at \<open>a\<close> is at most \<open>a\<close>. On a well-formed memory more fuel changes
  nothing (\<open>tail_fuel_enough\<close> below), the call satisfies the equation of the source,
  \<open>tail st a = tail_body tail st a\<close> (\<open>tail_unfold\<close>), and it returns (\<open>tail_ok\<close>).
\<close>

definition tail :: "('e, 'g) tailfn" where
  "tail st a = tail_fuel a st a"

subsection \<open>map\<close>

text \<open>
  \<^verbatim>\<open>
  return MapF([sharedThis = shared_from_this()](){ return sharedThis; },
              std::forward<Transform>(transform))();
  \<close>
  on the node at \<open>a\<close>.
\<close>

definition Stream_map :: "('e, 'g) memory \<Rightarrow> addr \<Rightarrow> ('e \<Rightarrow> 'e) \<Rightarrow> error + (StreamT \<times> ('e, 'g) memory)" where
  "Stream_map st a transform = MapF_call tail (SharedThis a) transform st"

subsection \<open>StreamIterator\<close>

datatype StreamIterator = StreamIterator (location: StreamT)

definition increment :: "('e, 'g) memory \<Rightarrow> StreamIterator \<Rightarrow> error + (StreamIterator \<times> ('e, 'g) memory)" where
  "increment st it =
     (case location it of
        None \<Rightarrow> Inl UndefinedBehaviour
      | Some a \<Rightarrow> and_then (tail st a) (\<lambda>(r, st1). Inr (StreamIterator r, st1)))"

definition dereference :: "('e, 'g) memory \<Rightarrow> StreamIterator \<Rightarrow> error + 'e" where
  "dereference st it =
     (case location it of None \<Rightarrow> Inl UndefinedBehaviour | Some a \<Rightarrow> head st a)"

definition equal :: "StreamIterator \<Rightarrow> StreamIterator \<Rightarrow> bool" where
  "equal it other = (location it = location other)"

text \<open>
  \<^verbatim>\<open>StreamIterator begin() { return StreamIterator(shared_from_this()); }\<close> on the node
  at \<open>a\<close>, \<^verbatim>\<open>static StreamIterator end() { return StreamIterator(nullptr); }\<close>, and the
  overloads of \<^verbatim>\<open>std::begin\<close> and \<^verbatim>\<open>std::end\<close> for a \<^verbatim>\<open>StreamT\<close>:
  \<^verbatim>\<open>return s ? s->begin() : end(s);\<close>.
\<close>

definition Stream_begin :: "addr \<Rightarrow> StreamIterator" where
  "Stream_begin a = StreamIterator (Some a)"

definition Stream_end :: StreamIterator where
  "Stream_end = StreamIterator None"

definition std_end :: "StreamT \<Rightarrow> StreamIterator" where
  "std_end s = Stream_end"

definition std_begin :: "StreamT \<Rightarrow> StreamIterator" where
  "std_begin s = (case s of Some a \<Rightarrow> Stream_begin a | None \<Rightarrow> std_end s)"

text \<open>
  The loop of a caller that reads at most \<open>n\<close> elements from a cursor and stops at the
  end: \<^verbatim>\<open>for (; n > 0 && it != end; --n, ++it) out.push_back(*it);\<close>. It returns the
  elements read, the cursor reached and the memory.
\<close>

fun copy_n :: "nat \<Rightarrow> ('e, 'g) memory \<Rightarrow> StreamIterator \<Rightarrow> error + ('e list \<times> StreamIterator \<times> ('e, 'g) memory)" where
  "copy_n 0 st it = Inr ([], it, st)"
| "copy_n (Suc n) st it =
     (if equal it Stream_end then Inr ([], it, st)
      else
        and_then (dereference st it) (\<lambda>e.
        and_then (increment st it) (\<lambda>(it1, st1).
        and_then (copy_n n st1 it1) (\<lambda>(es, it2, st2). Inr (e # es, it2, st2)))))"

subsection \<open>Callers\<close>

text \<open>
  \<open>k\<close> calls of \<^verbatim>\<open>tail()\<close> on the node at \<open>a\<close>, with the references they return; a
  sequence of calls of \<^verbatim>\<open>tail()\<close> on the nodes of a list; the empty memory; the
  functor \<^verbatim>\<open>FibStreamF\<close> of the repository's example, whose \<^verbatim>\<open>a_ + b_\<close> is
  the addition of \<^verbatim>\<open>size_t\<close> (taken as 64 bits wide; it wraps), and the memory after
  \<^verbatim>\<open>Cell(0, FibStreamF(1, 1))\<close>, the stream of \<^verbatim>\<open>FibStreamF::first()\<close>.
\<close>

fun tail_calls :: "nat \<Rightarrow> ('e, 'g) memory \<Rightarrow> addr \<Rightarrow> error + (StreamT list \<times> ('e, 'g) memory)" where
  "tail_calls 0 st a = Inr ([], st)"
| "tail_calls (Suc k) st a =
     and_then (tail st a) (\<lambda>(r, st1).
     and_then (tail_calls k st1 a) (\<lambda>(rs, st2). Inr (r # rs, st2)))"

definition empty_memory :: "'g \<Rightarrow> ('e, 'g) memory" where
  "empty_memory g = \<lparr>head_mem = Map.empty, tail_mem = Map.empty, next_addr = 0, env = g,
                     discarded = [], invoked = []\<rparr>"

type_synonym size_t = "64 word"

primcorec FibStreamF :: "size_t \<Rightarrow> size_t \<Rightarrow> (size_t, 'g) generator" where
  "FibStreamF a b = Generator (\<lambda>e. (Some (a, FibStreamF b (a + b)), e))"

definition fib_memory :: "(size_t, unit) memory" where
  "fib_memory = snd (Cell 0 (F_alt (UniqueFunction_new (Client (FibStreamF 1 1)))) (empty_memory ()))"



fun tail_seq :: "addr list \<Rightarrow> ('e, 'g) memory \<Rightarrow> error + ('e, 'g) memory" where
  "tail_seq [] st = Inr st"
| "tail_seq (b # bs) st = and_then (tail st b) (\<lambda>(r, st1). tail_seq bs st1)"

section \<open>Invariants\<close>

text \<open>
  A memory is well formed when the nodes are the addresses below \<open>next_addr\<close>, a
  materialized tail refers to a node, and a pending tail holds a live functor that refers
  only to nodes allocated before its own node. \<open>extends\<close> is what every operation
  keeps: nodes are only added, heads stay, a materialized tail stays. \<open>forced\<close> is
  the outcome of \<^verbatim>\<open>tail()\<close> on the node at \<open>a\<close>.
\<close>

fun src_addr :: "src \<Rightarrow> addr" where
  "src_addr (SharedThis a) = a"
| "src_addr (SrcTail a) = a"

definition live :: "addr \<Rightarrow> ('e, 'g) callable UniqueFunction \<Rightarrow> bool" where
  "live a uf = (case fh uf of None \<Rightarrow> False | Some (Client g) \<Rightarrow> True | Some (MapF s t) \<Rightarrow> src_addr s < a)"

definition slot_ok :: "addr \<Rightarrow> addr \<Rightarrow> ('e, 'g) variant \<Rightarrow> bool" where
  "slot_ok n a v = (case v of StreamT_alt None \<Rightarrow> True | StreamT_alt (Some b) \<Rightarrow> b < n | F_alt uf \<Rightarrow> live a uf)"

definition well_formed :: "('e, 'g) memory \<Rightarrow> bool" where
  "well_formed st =
     ((\<forall>a. a < next_addr st \<longrightarrow> head_mem st a \<noteq> None) \<and>
      (\<forall>a. a < next_addr st \<longrightarrow> (\<exists>v. tail_mem st a = Some v \<and> slot_ok (next_addr st) a v)) \<and>
      (\<forall>a. next_addr st \<le> a \<longrightarrow> head_mem st a = None \<and> tail_mem st a = None))"

definition memo :: "addr \<Rightarrow> StreamT \<Rightarrow> ('e, 'g) memory \<Rightarrow> ('e, 'g) memory" where
  "memo a r st =
     st\<lparr>tail_mem := (tail_mem st)(a \<mapsto> StreamT_alt r),
        discarded := (case tail_mem st a of None \<Rightarrow> [] | Some old \<Rightarrow> [old]) @ discarded st\<rparr>"

definition extends :: "('e, 'g) memory \<Rightarrow> ('e, 'g) memory \<Rightarrow> bool" where
  "extends st st' = (next_addr st \<le> next_addr st' \<and>
     (\<forall>b. b < next_addr st \<longrightarrow> head_mem st' b = head_mem st b) \<and>
     (\<forall>b r. tail_mem st b = Some (StreamT_alt r) \<longrightarrow> tail_mem st' b = Some (StreamT_alt r)))"

definition forced :: "('e, 'g) memory \<Rightarrow> addr \<Rightarrow> StreamT \<Rightarrow> ('e, 'g) memory \<Rightarrow> bool" where
  "forced st a r st' =
     (well_formed st' \<and> extends st st' \<and> tail_mem st' a = Some (StreamT_alt r) \<and>
      (\<exists>ys. invoked st' = ys @ invoked st \<and> (\<forall>y\<in>set ys. y \<le> a) \<and>
         count_list ys a = (case tail_mem st a of Some (F_alt uf) \<Rightarrow> 1 | _ \<Rightarrow> 0)) \<and>
      (case tail_mem st a of
         Some (F_alt uf) \<Rightarrow>
           (\<forall>c. r = Some c \<longrightarrow> next_addr st \<le> c \<and> (\<exists>uf'. tail_mem st' c = Some (F_alt uf')))
       | _ \<Rightarrow> st' = st))"

text \<open>
  The state of a walk along a mapped stream: the cursor \<open>cm\<close> on the mapped stream
  is pending on the cursor \<open>cs\<close> on the source (\<open>linked\<close>), and the source node
  at \<open>cs\<close> has not been forced since the memory \<open>st0\<close> in which \<^verbatim>\<open>map\<close> was
  called (\<open>frontier\<close>).
\<close>

definition frontier :: "('e, 'g) memory \<Rightarrow> ('e, 'g) memory \<Rightarrow> StreamT \<Rightarrow> bool" where
  "frontier st0 st cs =
     (case cs of
        None \<Rightarrow> True
      | Some a \<Rightarrow>
          a < next_addr st \<and>
          (if a < next_addr st0 then (\<forall>b. b < next_addr st0 \<longrightarrow> tail_mem st b = tail_mem st0 b)
           else (\<exists>uf. tail_mem st a = Some (F_alt uf))))"

definition linked :: "('e, 'g) memory \<Rightarrow> ('e \<Rightarrow> 'e) \<Rightarrow> StreamT \<Rightarrow> StreamT \<Rightarrow> bool" where
  "linked st f cm cs =
     (case cm of
        None \<Rightarrow> cs = None
      | Some am \<Rightarrow>
          (case cs of
             None \<Rightarrow> False
           | Some as \<Rightarrow>
               tail_mem st am = Some (F_alt (UniqueFunction (Some (MapF (SrcTail as) f)))) \<and>
               (\<exists>h. head_mem st as = Some h \<and> head_mem st am = Some (f h))))"

definition map_inv :: "('e, 'g) memory \<Rightarrow> ('e \<Rightarrow> 'e) \<Rightarrow> ('e, 'g) memory \<Rightarrow> StreamT \<Rightarrow> StreamT \<Rightarrow> bool" where
  "map_inv st0 f st cm cs =
     (well_formed st0 \<and> well_formed st \<and> next_addr st0 \<le> next_addr st \<and> linked st f cm cs \<and>
      (\<forall>am. cm = Some am \<longrightarrow> next_addr st0 \<le> am) \<and> frontier st0 st cs)"

section \<open>Lemmas\<close>

lemma and_then_Inr [simp]: "and_then (Inr x) k = k x"
  by (simp add: and_then_def)

lemma and_then_Inl [simp]: "and_then (Inl e) k = Inl e"
  by (simp add: and_then_def)

lemma wf_invoked [simp]: "well_formed (st\<lparr>invoked := l\<rparr>) = well_formed st"
  by (simp add: well_formed_def)

lemma wf_env [simp]: "well_formed (st\<lparr>env := e\<rparr>) = well_formed st"
  by (simp add: well_formed_def)

lemma slot_ok_mono: "slot_ok n a v \<Longrightarrow> n \<le> n' \<Longrightarrow> slot_ok n' a v"
  by (auto simp: slot_ok_def split: variant.splits option.splits)

lemma wf_Cell: "well_formed st \<Longrightarrow> slot_ok (next_addr st) (next_addr st) t \<Longrightarrow> well_formed (snd (Cell e t st))"
  unfolding well_formed_def Cell_def
  by (auto simp: less_Suc_eq intro: slot_ok_mono) (meson slot_ok_mono le_SucI le_refl)

lemma wf_memo:
  "well_formed st \<Longrightarrow> a < next_addr st \<Longrightarrow> (\<forall>c. r = Some c \<longrightarrow> c < next_addr st) \<Longrightarrow> well_formed (memo a r st)"
  unfolding well_formed_def memo_def
  by (auto simp: slot_ok_def split: option.splits)

lemma ext_refl [simp]: "extends st st"
  by (simp add: extends_def)

lemma ext_trans: "extends st1 st2 \<Longrightarrow> extends st2 st3 \<Longrightarrow> extends st1 st3"
  unfolding extends_def by auto

lemma ext_invoked [simp]: "extends st (st\<lparr>invoked := l\<rparr>)"
  by (simp add: extends_def)

lemma ext_env [simp]: "extends st (st\<lparr>env := l\<rparr>)"
  by (simp add: extends_def)

lemma ext_Cell: "well_formed st \<Longrightarrow> extends st (snd (Cell e t st))"
  unfolding extends_def Cell_def well_formed_def
  by auto

lemma ext_memo: "\<forall>r0. tail_mem st a \<noteq> Some (StreamT_alt r0) \<Longrightarrow> extends st (memo a r st)"
  unfolding extends_def memo_def by auto

lemma tail_body_materialized:
  "tail_mem st a = Some (StreamT_alt r) \<Longrightarrow> tail_body tailf st a = Inr (r, st)"
  by (simp add: tail_body_def which_def get_StreamT_def)

lemma tail_body_pending:
  "tail_mem st a = Some (F_alt (UniqueFunction (Some f))) \<Longrightarrow>
   tail_body tailf st a =
     and_then (F_invoke tailf (st\<lparr>invoked := a # invoked st\<rparr>) f) (\<lambda>(r, st1).
       case tail_mem st1 a of None \<Rightarrow> Inl UndefinedBehaviour | Some old \<Rightarrow> Inr (r, memo a r st1))"
  by (auto simp: tail_body_def which_def get_F_def UniqueFunction_call_def emplace_def destroy_def
      placement_new_def read_argument_def get_StreamT_def memo_def and_then_def
      split: sum.splits option.splits prod.splits)

lemma tail_fuel_materialized:
  "tail_mem st a = Some (StreamT_alt r) \<Longrightarrow> tail_fuel n st a = Inr (r, st)"
  by (cases n) (simp_all add: tail_body_materialized)

lemma tail_materialized:
  "tail_mem st a = Some (StreamT_alt r) \<Longrightarrow> tail st a = Inr (r, st)"
  by (simp add: tail_def tail_fuel_materialized)

lemma tail_body_cong:
  assumes "\<And>s t. tail_mem st a = Some (F_alt (UniqueFunction (Some (MapF (SrcTail s) t)))) \<Longrightarrow>
             tailf (st\<lparr>invoked := a # invoked st\<rparr>) s = tailf' (st\<lparr>invoked := a # invoked st\<rparr>) s"
  shows "tail_body tailf st a = tail_body tailf' st a"
proof (cases "tail_mem st a")
  case None
  then show ?thesis by (simp add: tail_body_def)
next
  case (Some v)
  show ?thesis
  proof (cases v)
    case (StreamT_alt r)
    with Some show ?thesis by (simp add: tail_body_materialized)
  next
    case (F_alt uf)
    show ?thesis
    proof (cases uf)
      case (UniqueFunction o1)
      show ?thesis
      proof (cases o1)
        case None
        with Some F_alt UniqueFunction show ?thesis
          by (simp add: tail_body_def which_def get_F_def UniqueFunction_call_def)
      next
        case (Some f)
        note slot = \<open>tail_mem st a = Some v\<close> F_alt UniqueFunction Some
        show ?thesis
        proof (cases f)
          case (Client g)
          with slot show ?thesis by (simp add: tail_body_pending F_invoke_def)
        next
          case (MapF s t)
          show ?thesis
          proof (cases s)
            case (SharedThis b)
            with slot MapF show ?thesis
              by (simp add: tail_body_pending F_invoke_def MapF_call_def src_call_def)
          next
            case (SrcTail b)
            with slot MapF assms [of b t] show ?thesis
              by (simp add: tail_body_pending F_invoke_def MapF_call_def src_call_def)
          qed
        qed
      qed
    qed
  qed
qed

lemma wf_allocated: "well_formed st \<Longrightarrow> tail_mem st a = Some v \<Longrightarrow> a < next_addr st"
  unfolding well_formed_def by (metis not_le_imp_less option.distinct(1))

lemma wf_slot_ok: "well_formed st \<Longrightarrow> tail_mem st a = Some v \<Longrightarrow> slot_ok (next_addr st) a v"
  using wf_allocated [of st a v] unfolding well_formed_def by fastforce

lemma wf_MapF_src:
  "well_formed st \<Longrightarrow> tail_mem st a = Some (F_alt (UniqueFunction (Some (MapF s t)))) \<Longrightarrow> src_addr s < a"
  using wf_slot_ok [of st a "F_alt (UniqueFunction (Some (MapF s t)))"]
  by (simp add: slot_ok_def live_def)

lemma tail_fuel_enough: "well_formed st \<Longrightarrow> a \<le> n \<Longrightarrow> tail_fuel n st a = tail st a"
proof (induction a arbitrary: n st rule: less_induct)
  case (less a)
  have step: "tail_body (tail_fuel k) st a = tail_body tail st a" if "a \<le> Suc k" for k
  proof (rule tail_body_cong)
    fix s t assume "tail_mem st a = Some (F_alt (UniqueFunction (Some (MapF (SrcTail s) t))))"
    with less.prems(1) have "s < a" using wf_MapF_src by fastforce
    with that less.IH [of s "st\<lparr>invoked := a # invoked st\<rparr>" k] less.prems(1)
    show "tail_fuel k (st\<lparr>invoked := a # invoked st\<rparr>) s = tail (st\<lparr>invoked := a # invoked st\<rparr>) s"
      by simp
  qed
  have zero: "tail_body (\<lambda>st a. Inl OutOfFuel) st 0 = tail_body tail st 0" if "a = 0"
  proof (rule tail_body_cong)
    fix s t assume "tail_mem st 0 = Some (F_alt (UniqueFunction (Some (MapF (SrcTail s) t))))"
    with less.prems(1) have "s < 0" using wf_MapF_src by fastforce
    then show "Inl OutOfFuel = tail (st\<lparr>invoked := 0 # invoked st\<rparr>) s" by simp
  qed
  have a_eq: "tail st a = tail_body tail st a"
  proof (cases a)
    case 0
    with zero show ?thesis by (simp add: tail_def)
  next
    case (Suc k)
    with step [of k] show ?thesis by (simp add: tail_def)
  qed
  show ?case
  proof (cases n)
    case 0
    with less.prems(2) show ?thesis by (simp add: tail_def)
  next
    case (Suc k)
    with step [of k] less.prems(2) a_eq show ?thesis by simp
  qed
qed

lemma tail_unfold: "well_formed st \<Longrightarrow> tail st a = tail_body tail st a"
proof (cases a)
  case 0
  assume w: "well_formed st"
  have "tail_body (\<lambda>st a. Inl OutOfFuel) st 0 = tail_body tail st 0"
  proof (rule tail_body_cong)
    fix s t assume "tail_mem st 0 = Some (F_alt (UniqueFunction (Some (MapF (SrcTail s) t))))"
    with w have "s < 0" using wf_MapF_src by fastforce
    then show "Inl OutOfFuel = tail (st\<lparr>invoked := 0 # invoked st\<rparr>) s" by simp
  qed
  with 0 show ?thesis by (simp add: tail_def)
next
  case (Suc k)
  assume w: "well_formed st"
  have "tail_body (tail_fuel k) st a = tail_body tail st a"
  proof (rule tail_body_cong)
    fix s t assume "tail_mem st a = Some (F_alt (UniqueFunction (Some (MapF (SrcTail s) t))))"
    with w have "s < a" using wf_MapF_src by fastforce
    with Suc w show "tail_fuel k (st\<lparr>invoked := a # invoked st\<rparr>) s = tail (st\<lparr>invoked := a # invoked st\<rparr>) s"
      by (simp add: tail_fuel_enough)
  qed
  with Suc show ?thesis by (simp add: tail_def)
qed


lemma wf_head: "well_formed st \<Longrightarrow> a < next_addr st \<Longrightarrow> \<exists>h. head_mem st a = Some h"
  unfolding well_formed_def by auto

lemma wf_tail: "well_formed st \<Longrightarrow> a < next_addr st \<Longrightarrow> \<exists>v. tail_mem st a = Some v"
  unfolding well_formed_def by auto

lemma wf_live:
  "well_formed st \<Longrightarrow> tail_mem st a = Some (F_alt uf) \<Longrightarrow> \<exists>f. uf = UniqueFunction (Some f)"
  using wf_slot_ok [of st a "F_alt uf"]
  by (cases uf) (auto simp: slot_ok_def live_def split: option.splits)

lemma wf_materialized:
  "well_formed st \<Longrightarrow> tail_mem st a = Some (StreamT_alt (Some c)) \<Longrightarrow> c < next_addr st"
  using wf_slot_ok [of st a "StreamT_alt (Some c)"]
  by (simp add: slot_ok_def)

lemma forced_materialized:
  "well_formed st \<Longrightarrow> tail_mem st a = Some (StreamT_alt r) \<Longrightarrow> forced st a r st"
  by (simp add: forced_def)

lemma forced_finish:
  assumes w: "well_formed st" and slot: "tail_mem st a = Some (F_alt uf)"
    and w1: "well_formed st1" and e1: "extends st st1"
    and log: "invoked st1 = ys @ a # invoked st" "\<forall>y\<in>set ys. y < a"
    and fresh: "\<And>c. r = Some c \<Longrightarrow> next_addr st \<le> c \<and> c < next_addr st1 \<and> (\<exists>uf'. tail_mem st1 c = Some (F_alt uf'))"
  shows "forced st a r (memo a r st1)"
proof -
  have a: "a < next_addr st" using w slot by (rule wf_allocated)
  have a1: "a < next_addr st1" using a e1 by (simp add: extends_def)
  have wm: "well_formed (memo a r st1)"
    using w1 a1 fresh by (intro wf_memo) auto
  have em: "extends st (memo a r st1)"
    using e1 slot unfolding extends_def memo_def by auto
  have lg: "invoked (memo a r st1) = (ys @ [a]) @ invoked st"
    using log by (simp add: memo_def)
  have cnt: "count_list (ys @ [a]) a = 1"
    using log(2) by (induction ys) auto
  have le: "\<forall>y\<in>set (ys @ [a]). y \<le> a"
    using log(2) by auto
  have fr: "\<forall>c. r = Some c \<longrightarrow> next_addr st \<le> c \<and> (\<exists>uf'. tail_mem (memo a r st1) c = Some (F_alt uf'))"
    using fresh a by (auto simp: memo_def)
  show ?thesis
    unfolding forced_def using wm em lg cnt le fr slot
    by (simp add: memo_def)
qed


lemma tail_body_finish:
  assumes slot: "tail_mem st a = Some (F_alt (UniqueFunction (Some f)))"
    and run: "F_invoke tailf (st\<lparr>invoked := a # invoked st\<rparr>) f = Inr (r, st1)"
    and a1: "tail_mem st1 a \<noteq> None"
  shows "tail_body tailf st a = Inr (r, memo a r st1)"
  using a1 by (auto simp: tail_body_pending [OF slot] run)

lemma tail_ok:
  "well_formed st \<Longrightarrow> a < next_addr st \<Longrightarrow> \<exists>r st'. tail st a = Inr (r, st') \<and> forced st a r st'"
proof (induction a arbitrary: st rule: less_induct)
  case (less a)
  note w = \<open>well_formed st\<close> and a = \<open>a < next_addr st\<close>
  let ?st0 = "st\<lparr>invoked := a # invoked st\<rparr>"
  obtain v where v: "tail_mem st a = Some v" using wf_tail [OF w a] by blast
  show ?case
  proof (cases v)
    case (StreamT_alt r)
    with v w show ?thesis
      by (auto simp: tail_materialized forced_materialized)
  next
    case (F_alt uf)
    then obtain f where slot: "tail_mem st a = Some (F_alt (UniqueFunction (Some f)))"
      using v wf_live [OF w, of a uf] by auto
    have fin: "\<exists>r st'. tail st a = Inr (r, st') \<and> forced st a r st'"
      if run: "F_invoke tail ?st0 f = Inr (r, st1)"
        and w1: "well_formed st1" and e1: "extends st st1"
        and log: "invoked st1 = ys @ a # invoked st" "\<forall>y\<in>set ys. y < a"
        and fresh: "\<And>c. r = Some c \<Longrightarrow> next_addr st \<le> c \<and> c < next_addr st1 \<and> (\<exists>uf'. tail_mem st1 c = Some (F_alt uf'))"
      for r st1 ys
    proof -
      have "a < next_addr st1" using a e1 by (simp add: extends_def)
      then have "tail_mem st1 a \<noteq> None" using wf_tail [OF w1] by fastforce
      then have "tail st a = Inr (r, memo a r st1)"
        using tail_body_finish [OF slot run] tail_unfold [OF w] by simp
      moreover have "forced st a r (memo a r st1)"
        using forced_finish [OF w slot w1 e1 log] fresh by blast
      ultimately show ?thesis by blast
    qed
    show ?thesis
    proof (cases f)
      case (Client g)
      obtain o1 e1 where g: "run g (env st) = (o1, e1)" by (cases "run g (env st)")
      show ?thesis
      proof (cases o1)
        case None
        let ?st1 = "?st0\<lparr>env := e1\<rparr>"
        have "F_invoke tail ?st0 f = Inr (None, ?st1)"
          using Client g None by (simp add: F_invoke_def Client_call_def Stream_Nil_def)
        moreover have "well_formed ?st1" using w by simp
        moreover have "extends st ?st1" by (simp add: extends_def)
        moreover have "invoked ?st1 = [] @ a # invoked st" by simp
        ultimately show ?thesis using fin [of None ?st1 "[]"] by simp
      next
        case (Some p)
        obtain x g1 where p: "p = (x, g1)" by (cases p)
        let ?c = "Cell x (F_alt (UniqueFunction_new (Client g1))) (?st0\<lparr>env := e1\<rparr>)"
        have "F_invoke tail ?st0 f = Inr (Some (next_addr st), snd ?c)"
          using Client g Some p by (simp add: F_invoke_def Client_call_def Cell_def)
        moreover have "well_formed (snd ?c)"
          using w by (intro wf_Cell) (simp_all add: slot_ok_def live_def UniqueFunction_new_def)
        moreover have "extends st (snd ?c)"
        proof -
          have e0: "extends st (?st0\<lparr>env := e1\<rparr>)" by (simp add: extends_def)
          have w0: "well_formed (?st0\<lparr>env := e1\<rparr>)" using w by simp
          show ?thesis by (rule ext_trans [OF e0 ext_Cell [OF w0]])
        qed
        moreover have "invoked (snd ?c) = [] @ a # invoked st" by (simp add: Cell_def)
        moreover have "next_addr st < next_addr (snd ?c) \<and> (\<exists>uf'. tail_mem (snd ?c) (next_addr st) = Some (F_alt uf'))"
          by (simp add: Cell_def)
        ultimately show ?thesis using fin [of "Some (next_addr st)" "snd ?c" "[]"] by simp
      qed
    next
      case (MapF s t)
      have sa: "src_addr s < a" using wf_MapF_src [OF w] slot MapF by blast
      have build: "\<exists>r st'. tail st a = Inr (r, st') \<and> forced st a r st'"
        if src: "src_call tail s ?st0 = Inr (Some c, st2)"
          and w2: "well_formed st2" and e2: "extends st st2" and c: "c < next_addr st2"
          and log: "invoked st2 = ys @ a # invoked st" "\<forall>y\<in>set ys. y < a"
        for c st2 ys
      proof -
        obtain h where h: "head_mem st2 c = Some h" using wf_head [OF w2 c] by blast
        let ?c = "Cell (t h) (F_alt (UniqueFunction_new (MapF (SrcTail c) t))) st2"
        have "F_invoke tail ?st0 f = Inr (Some (next_addr st2), snd ?c)"
          using MapF src h by (simp add: F_invoke_def MapF_call_def head_def Cell_def)
        moreover have "well_formed (snd ?c)"
          using w2 c by (intro wf_Cell) (simp_all add: slot_ok_def live_def UniqueFunction_new_def)
        moreover have "extends st (snd ?c)"
          by (rule ext_trans [OF e2 ext_Cell [OF w2]])
        moreover have "invoked (snd ?c) = ys @ a # invoked st" using log by (simp add: Cell_def)
        moreover have "next_addr st \<le> next_addr st2 \<and> next_addr st2 < next_addr (snd ?c) \<and>
            (\<exists>uf'. tail_mem (snd ?c) (next_addr st2) = Some (F_alt uf'))"
          using e2 by (simp add: Cell_def extends_def)
        ultimately show ?thesis using fin [of "Some (next_addr st2)" "snd ?c" ys] log by simp
      qed
      show ?thesis
      proof (cases s)
        case (SharedThis b)
        have "src_call tail s ?st0 = Inr (Some b, ?st0)" using SharedThis by (simp add: src_call_def)
        moreover have "b < next_addr ?st0" using sa a SharedThis by simp
        moreover have "invoked ?st0 = [] @ a # invoked st" by simp
        ultimately show ?thesis using build [of b ?st0 "[]"] w by simp
      next
        case (SrcTail b)
        have ba: "b < a" using sa SrcTail by simp
        have "well_formed ?st0" "b < next_addr ?st0" using w ba a by simp_all
        from less.IH [OF ba this] obtain rs st2 where
          t: "tail ?st0 b = Inr (rs, st2)" and f: "forced ?st0 b rs st2" by blast
        have w2: "well_formed st2" and e02: "extends ?st0 st2" and sl: "tail_mem st2 b = Some (StreamT_alt rs)"
          using f by (simp_all add: forced_def)
        have e2: "extends st st2" by (rule ext_trans [OF ext_invoked e02])
        obtain ys where ys: "invoked st2 = ys @ a # invoked st" "\<forall>y\<in>set ys. y \<le> b"
          using f by (auto simp: forced_def)
        have ys': "\<forall>y\<in>set ys. y < a" using ys(2) ba by auto
        have sc: "src_call tail s ?st0 = Inr (rs, st2)" using SrcTail t by (simp add: src_call_def)
        show ?thesis
        proof (cases rs)
          case None
          have "F_invoke tail ?st0 f = Inr (None, st2)"
            using MapF sc None by (simp add: F_invoke_def MapF_call_def Stream_Nil_def)
          then show ?thesis using fin [of None st2 ys] w2 e2 ys(1) ys' by simp
        next
          case (Some c)
          have "c < next_addr st2" using wf_materialized [OF w2] sl Some by blast
          then show ?thesis using build [of c st2 ys] sc Some w2 e2 ys(1) ys' by simp
        qed
      qed
    qed
  qed
qed


lemma copy_n_end [simp]: "copy_n k st (StreamIterator None) = Inr ([], StreamIterator None, st)"
  by (cases k) (simp_all add: equal_def Stream_end_def)



lemma map_start:
  assumes w: "well_formed st0" and s: "s < next_addr st0"
  shows "\<exists>m st1. Stream_map st0 s f = Inr (Some m, st1) \<and> map_inv st0 f st1 (Some m) (Some s)"
proof -
  obtain h where h: "head_mem st0 s = Some h" using wf_head [OF w s] by blast
  let ?cell = "Cell (f h) (F_alt (UniqueFunction_new (MapF (SrcTail s) f))) st0"
  have "Stream_map st0 s f = Inr (Some (next_addr st0), snd ?cell)"
    using h by (simp add: Stream_map_def MapF_call_def src_call_def head_def Cell_def)
  moreover have "well_formed (snd ?cell)"
    using w s by (intro wf_Cell) (simp_all add: slot_ok_def live_def UniqueFunction_new_def)
  moreover have "linked (snd ?cell) f (Some (next_addr st0)) (Some s)"
    using h s by (simp add: linked_def Cell_def UniqueFunction_new_def)
  moreover have "frontier st0 (snd ?cell) (Some s)"
    using s by (simp add: frontier_def Cell_def)
  ultimately show ?thesis using w by (simp add: map_inv_def Cell_def)
qed

lemma tail_pending_exact:
  assumes w: "well_formed st"
    and slot: "tail_mem st n = Some (F_alt (UniqueFunction (Some f)))"
    and t: "tail st n = Inr (r, st1)"
  shows "\<exists>st0. F_invoke tail (st\<lparr>invoked := n # invoked st\<rparr>) f = Inr (r, st0) \<and>
           tail_mem st0 n \<noteq> None \<and> st1 = memo n r st0"
proof -
  have "tail st n =
      and_then (F_invoke tail (st\<lparr>invoked := n # invoked st\<rparr>) f) (\<lambda>(r, st1).
        case tail_mem st1 n of None \<Rightarrow> Inl UndefinedBehaviour | Some old \<Rightarrow> Inr (r, memo n r st1))"
    using tail_unfold [OF w, of n] tail_body_pending [OF slot, of tail] by simp
  with t show ?thesis
    by (cases "F_invoke tail (st\<lparr>invoked := n # invoked st\<rparr>) f")
      (auto split: option.splits)
qed

lemma MapF_call_exact:
  assumes "MapF_call tailf src t st = Inr (r, st0)"
  shows "\<exists>rs st2. src_call tailf src st = Inr (rs, st2) \<and>
           (case rs of
              None \<Rightarrow> r = None \<and> st0 = st2
            | Some c \<Rightarrow>
                (\<exists>h. head st2 c = Inr h \<and>
                   (r, st0) = Cell (t h) (F_alt (UniqueFunction_new (MapF (SrcTail c) t))) st2))"
proof (cases "src_call tailf src st")
  case (Inl e)
  with assms show ?thesis by (simp add: MapF_call_def)
next
  case (Inr p)
  obtain rs st2 where p: "p = (rs, st2)" by (cases p)
  show ?thesis
  proof (cases rs)
    case None
    with assms Inr p show ?thesis by (simp add: MapF_call_def Stream_Nil_def)
  next
    case (Some c)
    with assms Inr p show ?thesis
      by (cases "head st2 c") (auto simp: MapF_call_def)
  qed
qed

lemma functor_frame:
  "well_formed st \<Longrightarrow> tail_mem st a = Some (F_alt (UniqueFunction (Some f))) \<Longrightarrow>
   F_invoke tail (st\<lparr>invoked := a # invoked st\<rparr>) f = Inr (r, st0) \<Longrightarrow>
   a \<le> c \<Longrightarrow> c < next_addr st \<Longrightarrow> tail_mem st0 c = tail_mem st c"
proof (induction a arbitrary: st f r st0 rule: less_induct)
  case (less a)
  note w = \<open>well_formed st\<close> and slot = \<open>tail_mem st a = Some (F_alt (UniqueFunction (Some f)))\<close>
    and run = \<open>F_invoke tail (st\<lparr>invoked := a # invoked st\<rparr>) f = Inr (r, st0)\<close>
    and ac = \<open>a \<le> c\<close> and c = \<open>c < next_addr st\<close>
  let ?stl = "st\<lparr>invoked := a # invoked st\<rparr>"
  have a: "a < next_addr st" using ac c by simp
  show ?case
  proof (cases f)
    case (Client g)
    with run c show ?thesis
      by (auto simp: F_invoke_def Client_call_def Cell_def Stream_Nil_def
          split: prod.splits option.splits)
  next
    case (MapF s t)
    with run have "MapF_call tail s t ?stl = Inr (r, st0)" by (simp add: F_invoke_def)
    from MapF_call_exact [OF this] obtain rs st2 where
      sc: "src_call tail s ?stl = Inr (rs, st2)"
      and sh: "case rs of
            None \<Rightarrow> r = None \<and> st0 = st2
          | Some c \<Rightarrow>
              (\<exists>h. head st2 c = Inr h \<and>
                 (r, st0) = Cell (t h) (F_alt (UniqueFunction_new (MapF (SrcTail c) t))) st2)"
      by blast
    have st2: "tail_mem st2 c = tail_mem st c \<and> next_addr st \<le> next_addr st2"
    proof (cases s)
      case (SharedThis b)
      with sc show ?thesis by (auto simp: src_call_def)
    next
      case (SrcTail b)
      have ba: "b < a" using wf_MapF_src [OF w slot [unfolded MapF]] SrcTail by simp
      have tb: "tail ?stl b = Inr (rs, st2)" using sc SrcTail by (simp add: src_call_def)
      have wl: "well_formed ?stl" using w by simp
      have bn: "b < next_addr ?stl" using ba a by simp
      obtain v where v: "tail_mem ?stl b = Some v" using wf_tail [OF wl bn] by blast
      have "tail_mem st2 c = tail_mem ?stl c"
      proof (cases v)
        case (StreamT_alt r0)
        with v tb show ?thesis by (simp add: tail_materialized)
      next
        case (F_alt uf)
        then obtain f' where slot': "tail_mem ?stl b = Some (F_alt (UniqueFunction (Some f')))"
          using v wf_live [OF wl, of b uf] by auto
        from tail_pending_exact [OF wl slot' tb] obtain st0' where
          run': "F_invoke tail (?stl\<lparr>invoked := b # invoked ?stl\<rparr>) f' = Inr (rs, st0')"
          and m: "st2 = memo b rs st0'" by blast
        have "tail_mem st0' c = tail_mem ?stl c"
          using less.IH [OF ba wl slot' run'] ba ac c by simp
        then show ?thesis using m ba ac by (simp add: memo_def)
      qed
      moreover have "next_addr st \<le> next_addr st2"
        using tail_ok [OF wl bn] tb by (auto simp: forced_def extends_def)
      ultimately show ?thesis by simp
    qed
    show ?thesis
    proof (cases rs)
      case None
      with sh st2 show ?thesis by simp
    next
      case (Some c')
      with sh st2 c show ?thesis by (auto simp: Cell_def)
    qed
  qed
qed

lemma tail_calls_materialized:
  "tail_mem st a = Some (StreamT_alt r) \<Longrightarrow> tail_calls k st a = Inr (replicate k r, st)"
  by (induction k) (simp_all add: tail_materialized)

lemma tail_calls_ok:
  "well_formed st \<Longrightarrow> a < next_addr st \<Longrightarrow> \<exists>rs st1. tail_calls k st a = Inr (rs, st1) \<and> well_formed st1 \<and> extends st st1"
proof (induction k arbitrary: st)
  case 0
  then show ?case by simp
next
  case (Suc k)
  from tail_ok [OF Suc.prems] obtain r st1 where
    t: "tail st a = Inr (r, st1)" and f: "forced st a r st1" by blast
  have w1: "well_formed st1" and e1: "extends st st1" using f by (simp_all add: forced_def)
  have a1: "a < next_addr st1" using Suc.prems(2) e1 by (simp add: extends_def)
  from Suc.IH [OF w1 a1] obtain rs st2 where
    c: "tail_calls k st1 a = Inr (rs, st2)" and w2: "well_formed st2" and e2: "extends st1 st2" by blast
  have "tail_calls (Suc k) st a = Inr (r # rs, st2)" using t c by simp
  then show ?case using w2 ext_trans [OF e1 e2] by blast
qed

lemma tail_seq_keeps_materialized:
  "well_formed st \<Longrightarrow> tail_mem st n = Some (StreamT_alt r) \<Longrightarrow> tail_seq bs st = Inr st2 \<Longrightarrow>
   tail_mem st2 n = Some (StreamT_alt r) \<and> well_formed st2"
proof (induction bs arbitrary: st)
  case Nil
  then show ?case by simp
next
  case (Cons b bs)
  from Cons.prems(3) obtain r1 st1 where
    t: "tail st b = Inr (r1, st1)" and rest: "tail_seq bs st1 = Inr st2"
    by (cases "tail st b") auto
  have b: "b < next_addr st"
  proof (rule ccontr)
    assume "\<not> b < next_addr st"
    then have "tail_mem st b = None" using Cons.prems(1) by (simp add: well_formed_def)
    then have "tail st b = Inl UndefinedBehaviour"
      by (simp add: tail_unfold [OF Cons.prems(1)] tail_body_def)
    with t show False by simp
  qed
  from tail_ok [OF Cons.prems(1) b] t have f: "forced st b r1 st1" by auto
  then have "well_formed st1" "tail_mem st1 n = Some (StreamT_alt r)"
    using Cons.prems(2) by (simp_all add: forced_def extends_def)
  from Cons.IH [OF this rest] show ?case .
qed



lemma wf_fib_memory: "well_formed fib_memory"
  by (auto simp: well_formed_def fib_memory_def Cell_def empty_memory_def slot_ok_def live_def UniqueFunction_new_def)

text \<open>
  The invariant holds of the empty memory and is kept by the operations of the library:
  \<^verbatim>\<open>Cell\<close> with a reference to a node or with a client functor (\<open>wf_Cell\<close>),
  \<^verbatim>\<open>tail()\<close> and \<^verbatim>\<open>map\<close>.
\<close>

lemma wf_empty_memory: "well_formed (empty_memory g)"
  by (simp add: well_formed_def empty_memory_def)

lemma wf_Cell_reference:
  "well_formed st \<Longrightarrow> (\<forall>b. r = Some b \<longrightarrow> b < next_addr st) \<Longrightarrow>
   well_formed (snd (Cell e (StreamT_alt r) st))"
  by (rule wf_Cell) (auto simp: slot_ok_def split: option.splits)

lemma wf_Cell_client:
  "well_formed st \<Longrightarrow> well_formed (snd (Cell e (F_alt (UniqueFunction_new (Client g))) st))"
  by (rule wf_Cell) (simp_all add: slot_ok_def live_def UniqueFunction_new_def)

lemma wf_after_tail: "well_formed st \<Longrightarrow> tail st a = Inr (r, st1) \<Longrightarrow> well_formed st1"
proof (cases "a < next_addr st")
  case True
  assume "well_formed st" "tail st a = Inr (r, st1)"
  with tail_ok [OF \<open>well_formed st\<close> True] show ?thesis by (auto simp: forced_def)
next
  case False
  assume w: "well_formed st" and t: "tail st a = Inr (r, st1)"
  from False w have "tail_mem st a = None" by (simp add: well_formed_def)
  then have "tail st a = Inl UndefinedBehaviour"
    by (simp add: tail_unfold [OF w] tail_body_def)
  with t show ?thesis by simp
qed

lemma wf_after_map:
  "well_formed st \<Longrightarrow> Stream_map st a f = Inr (r, st1) \<Longrightarrow> well_formed st1"
proof (cases "a < next_addr st")
  case True
  assume "well_formed st" "Stream_map st a f = Inr (r, st1)"
  with map_start [OF \<open>well_formed st\<close> True, of f] show ?thesis by (auto simp: map_inv_def)
next
  case False
  assume w: "well_formed st" and t: "Stream_map st a f = Inr (r, st1)"
  from False w have "head_mem st a = None" by (simp add: well_formed_def)
  then have "Stream_map st a f = Inl UndefinedBehaviour"
    by (simp add: Stream_map_def MapF_call_def src_call_def head_def)
  with t show ?thesis by simp
qed

lemma emplace_argument_refers_to_storage:
  "objects s t = Some old \<Longrightarrow> refers_to arg t \<Longrightarrow> emplace s t ctor arg = Inl UndefinedBehaviour"
  by (cases arg) (simp_all add: refers_to_def emplace_def destroy_def placement_new_def read_argument_def)

lemma emplace_constructor_throws:
  "objects s t = Some old \<Longrightarrow> \<not> refers_to arg t \<Longrightarrow> read_argument s arg = Inr x \<Longrightarrow>
   ctor x = Inl e \<Longrightarrow> emplace s t ctor arg = Inl e"
  by (cases arg)
    (auto simp: refers_to_def emplace_def destroy_def placement_new_def read_argument_def
      split: option.splits)

lemma emplace_dead_storage:
  "objects s t = None \<Longrightarrow> emplace s t ctor arg = Inl UndefinedBehaviour"
  by (simp add: emplace_def destroy_def)

lemma deleter_used_up_raises:
  "raised (initialized (AlignedMaybeUninitializedDeleter None))"
  by (simp add: raised_def initialized_def)

section \<open>The claims\<close>

subsection \<open>Memoization of the tail\<close>

text \<open>
  C1. Let the tail slot of the node at \<open>n\<close> hold a pending functor. Any number of calls
  of \<^verbatim>\<open>tail()\<close> on the node, one after the other, all return the same reference \<open>r\<close>
  and end in the same memory \<open>st1\<close>, and these are the result and the effect of one run of
  the functor. For a functor of the caller, \<open>r\<close> and the memory \<open>st0\<close> come from one
  \<open>run\<close> of it on the state outside the stream: \<^verbatim>\<open>Nil()\<close>, or the one new node that
  holds the element it made and its next functor. For a \<open>MapF\<close>, they come from one call
  of its source, one application of the transform and one new node. \<open>st1\<close> is \<open>st0\<close>
  with the slot constructed anew from \<open>r\<close> and the functor destroyed. The node is recorded
  once more in \<open>invoked\<close> than before. The slot then holds \<open>r\<close>, and it still holds
  \<open>r\<close> after any sequence of calls of \<^verbatim>\<open>tail()\<close> on any nodes.
\<close>

theorem tail_memoizes:
  assumes "well_formed st" and "tail_mem st n = Some (F_alt uf)"
  shows "\<exists>f r st0 st1.
           uf = UniqueFunction (Some f) \<and>
           (case f of
              Client g \<Rightarrow>
                (case run g (env st) of
                   (None, e1) \<Rightarrow> r = None \<and> st0 = st\<lparr>invoked := n # invoked st, env := e1\<rparr>
                 | (Some (x, g1), e1) \<Rightarrow>
                     (r, st0) = Cell x (F_alt (UniqueFunction_new (Client g1)))
                                  (st\<lparr>invoked := n # invoked st, env := e1\<rparr>))
            | MapF src t \<Rightarrow>
                (\<exists>rs st2.
                   (case src of
                      SharedThis b \<Rightarrow> rs = Some b \<and> st2 = st\<lparr>invoked := n # invoked st\<rparr>
                    | SrcTail b \<Rightarrow> tail (st\<lparr>invoked := n # invoked st\<rparr>) b = Inr (rs, st2)) \<and>
                   (case rs of
                      None \<Rightarrow> r = None \<and> st0 = st2
                    | Some c \<Rightarrow>
                        (\<exists>h. head st2 c = Inr h \<and>
                           (r, st0) = Cell (t h) (F_alt (UniqueFunction_new (MapF (SrcTail c) t))) st2)))) \<and>
           st1 = st0\<lparr>tail_mem := (tail_mem st0)(n \<mapsto> StreamT_alt r),
                     discarded := F_alt uf # discarded st0\<rparr> \<and>
           (\<forall>k. tail_calls (Suc k) st n = Inr (replicate (Suc k) r, st1)) \<and>
           count_list (invoked st1) n = Suc (count_list (invoked st) n) \<and>
           tail_mem st1 n = Some (StreamT_alt r) \<and>
           (\<forall>bs st2. tail_seq bs st1 = Inr st2 \<longrightarrow> tail_mem st2 n = Some (StreamT_alt r))"
proof -
  let ?stl = "st\<lparr>invoked := n # invoked st\<rparr>"
  have n: "n < next_addr st" using wf_allocated [OF assms] .
  obtain f where uf: "uf = UniqueFunction (Some f)" using wf_live [OF assms] by blast
  have slot: "tail_mem st n = Some (F_alt (UniqueFunction (Some f)))" using assms(2) uf by simp
  from tail_ok [OF assms(1) n] obtain r st1 where
    t: "tail st n = Inr (r, st1)" and f: "forced st n r st1" by blast
  from tail_pending_exact [OF assms(1) slot t] obtain st0 where
    run: "F_invoke tail ?stl f = Inr (r, st0)" and st1: "st1 = memo n r st0" by blast
  have "tail_mem st0 n = tail_mem st n"
    using functor_frame [OF assms(1) slot run _ n] by simp
  then have st1': "st1 = st0\<lparr>tail_mem := (tail_mem st0)(n \<mapsto> StreamT_alt r),
                     discarded := F_alt uf # discarded st0\<rparr>"
    using st1 assms(2) by (simp add: memo_def)
  have shape: "case f of
              Client g \<Rightarrow>
                (case run g (env st) of
                   (None, e1) \<Rightarrow> r = None \<and> st0 = st\<lparr>invoked := n # invoked st, env := e1\<rparr>
                 | (Some (x, g1), e1) \<Rightarrow>
                     (r, st0) = Cell x (F_alt (UniqueFunction_new (Client g1)))
                                  (st\<lparr>invoked := n # invoked st, env := e1\<rparr>))
            | MapF src t \<Rightarrow>
                (\<exists>rs st2.
                   (case src of
                      SharedThis b \<Rightarrow> rs = Some b \<and> st2 = st\<lparr>invoked := n # invoked st\<rparr>
                    | SrcTail b \<Rightarrow> tail (st\<lparr>invoked := n # invoked st\<rparr>) b = Inr (rs, st2)) \<and>
                   (case rs of
                      None \<Rightarrow> r = None \<and> st0 = st2
                    | Some c \<Rightarrow>
                        (\<exists>h. head st2 c = Inr h \<and>
                           (r, st0) = Cell (t h) (F_alt (UniqueFunction_new (MapF (SrcTail c) t))) st2)))"
  proof (cases f)
    case (Client g)
    with run show ?thesis
      by (auto simp: F_invoke_def Client_call_def Stream_Nil_def split: prod.splits option.splits)
  next
    case (MapF s t)
    with run have "MapF_call tail s t ?stl = Inr (r, st0)" by (simp add: F_invoke_def)
    from MapF_call_exact [OF this] MapF show ?thesis
      by (cases s) (auto simp: src_call_def)
  qed
  have w1: "well_formed st1" and m: "tail_mem st1 n = Some (StreamT_alt r)"
    using f by (simp_all add: forced_def)
  obtain ys where ys: "invoked st1 = ys @ invoked st" "count_list ys n = 1"
    using f assms(2) by (auto simp: forced_def)
  have calls: "\<forall>k. tail_calls (Suc k) st n = Inr (replicate (Suc k) r, st1)"
    using t tail_calls_materialized [OF m] by simp
  have cnt: "count_list (invoked st1) n = Suc (count_list (invoked st) n)"
    using ys by simp
  have keep: "\<forall>bs st2. tail_seq bs st1 = Inr st2 \<longrightarrow> tail_mem st2 n = Some (StreamT_alt r)"
    using tail_seq_keeps_materialized [OF w1 m] by blast
  from uf shape st1' calls cnt m keep show ?thesis by blast
qed

theorem tail_memoizes_witness:
  "well_formed fib_memory \<and>
   tail_mem fib_memory 0 = Some (F_alt (UniqueFunction_new (Client (FibStreamF 1 1)))) \<and>
   (\<exists>st1. tail_calls 3 fib_memory 0 = Inr ([Some 1, Some 1, Some 1], st1) \<and>
      head st1 1 = Inr 1 \<and>
      tail_mem st1 1 = Some (F_alt (UniqueFunction_new (Client (FibStreamF 1 2)))) \<and>
      next_addr st1 = 2 \<and>
      discarded st1 = [F_alt (UniqueFunction_new (Client (FibStreamF 1 1)))] \<and>
      invoked st1 = [0] \<and>
      tail_mem st1 0 = Some (StreamT_alt (Some 1)))"
proof -
  have s: "tail_mem fib_memory 0 = Some (F_alt (UniqueFunction_new (Client (FibStreamF 1 1))))"
    by (simp add: fib_memory_def Cell_def empty_memory_def)
  from tail_memoizes [OF wf_fib_memory s] obtain f r st0 st1 where
    uf: "UniqueFunction_new (Client (FibStreamF 1 1)) = UniqueFunction (Some f)"
    and shape: "case f of
              Client g \<Rightarrow>
                (case run g (env fib_memory) of
                   (None, e1) \<Rightarrow> r = None \<and> st0 = fib_memory\<lparr>invoked := 0 # invoked fib_memory, env := e1\<rparr>
                 | (Some (x, g1), e1) \<Rightarrow>
                     (r, st0) = Cell x (F_alt (UniqueFunction_new (Client g1)))
                                  (fib_memory\<lparr>invoked := 0 # invoked fib_memory, env := e1\<rparr>))
            | MapF src t \<Rightarrow>
                (\<exists>rs st2.
                   (case src of
                      SharedThis b \<Rightarrow> rs = Some b \<and> st2 = fib_memory\<lparr>invoked := 0 # invoked fib_memory\<rparr>
                    | SrcTail b \<Rightarrow> tail (fib_memory\<lparr>invoked := 0 # invoked fib_memory\<rparr>) b = Inr (rs, st2)) \<and>
                   (case rs of
                      None \<Rightarrow> r = None \<and> st0 = st2
                    | Some c \<Rightarrow>
                        (\<exists>h. head st2 c = Inr h \<and>
                           (r, st0) = Cell (t h) (F_alt (UniqueFunction_new (MapF (SrcTail c) t))) st2)))"
    and st1: "st1 = st0\<lparr>tail_mem := (tail_mem st0)(0 \<mapsto> StreamT_alt r),
                     discarded := F_alt (UniqueFunction_new (Client (FibStreamF 1 1))) # discarded st0\<rparr>"
    and a: "\<forall>k. tail_calls (Suc k) fib_memory 0 = Inr (replicate (Suc k) r, st1)"
    by blast
  from uf have f: "f = Client (FibStreamF 1 1)" by (simp add: UniqueFunction_new_def)
  from shape have rs: "(r, st0) = Cell 1 (F_alt (UniqueFunction_new (Client (FibStreamF 1 2))))
      (fib_memory\<lparr>invoked := 0 # invoked fib_memory, env := ()\<rparr>)"
    unfolding f by simp
  then have r: "r = Some 1"
    and st0: "st0 = snd (Cell 1 (F_alt (UniqueFunction_new (Client (FibStreamF 1 2))))
      (fib_memory\<lparr>invoked := 0 # invoked fib_memory, env := ()\<rparr>))"
    by (simp_all add: Cell_def fib_memory_def empty_memory_def)
  from a have "tail_calls (Suc 2) fib_memory 0 = Inr (replicate (Suc 2) r, st1)" by blast
  then have c: "tail_calls 3 fib_memory 0 = Inr ([Some 1, Some 1, Some 1], st1)"
    using r by (simp add: numeral_3_eq_3)
  have "head st1 1 = Inr 1"
    "tail_mem st1 1 = Some (F_alt (UniqueFunction_new (Client (FibStreamF 1 2))))"
    "next_addr st1 = 2"
    "discarded st1 = [F_alt (UniqueFunction_new (Client (FibStreamF 1 1)))]"
    "invoked st1 = [0]"
    "tail_mem st1 0 = Some (StreamT_alt (Some 1))"
    unfolding st1 st0 r by (simp_all add: Cell_def fib_memory_def empty_memory_def head_def)
  with wf_fib_memory s c show ?thesis by blast
qed

subsection \<open>Laziness of map\<close>



subsection \<open>A moved-from UniqueFunction\<close>

text \<open>
  C3, as the specification states it: the call of a moved-from \<^verbatim>\<open>UniqueFunction\<close> fails
  with an error that the operation raises. It does not: \<^verbatim>\<open>operator()\<close> dereferences
  \<^verbatim>\<open>fh_\<close> without a check, and for the moved-from handle of a functor that would return
  the outcome is undefined behaviour, not a raised error.
\<close>

theorem moved_from_call_not_raised:
  "\<not> raised (UniqueFunction_call (Inr :: nat \<Rightarrow> error + nat)
       (snd (UniqueFunction_move (UniqueFunction_new (0 :: nat)))))"
  by (simp add: raised_def UniqueFunction_call_def UniqueFunction_move_def)

text \<open>
  C3, amended. The call of a moved-from \<^verbatim>\<open>UniqueFunction\<close> is not checked: it
  dereferences the null \<^verbatim>\<open>fh_\<close>, which is undefined behaviour and raises nothing. What
  the class offers is the test \<^verbatim>\<open>operator bool\<close>, false for the moved-from handle and true
  for the handle that was moved to, whose call runs the wrapped functor.
\<close>

theorem moved_from_call_is_unchecked:
  "UniqueFunction_call invoke (snd (UniqueFunction_move uf)) = Inl UndefinedBehaviour \<and>
   \<not> raised (UniqueFunction_call invoke (snd (UniqueFunction_move uf))) \<and>
   \<not> UniqueFunction_bool (snd (UniqueFunction_move uf)) \<and>
   UniqueFunction_bool (fst (UniqueFunction_move (UniqueFunction_new f))) \<and>
   UniqueFunction_call invoke (fst (UniqueFunction_move (UniqueFunction_new f))) = invoke f"
  by (simp add: raised_def UniqueFunction_call_def UniqueFunction_move_def UniqueFunction_bool_def
      UniqueFunction_new_def)

subsection \<open>map of the identity\<close>





subsection \<open>The slot re-construction primitive\<close>




subsection \<open>Iteration\<close>

text \<open>
  C6. In any memory, build \<^verbatim>\<open>Cell(1, Cell(2, Nil()))\<close>. A loop that reads from
  \<^verbatim>\<open>begin\<close> until the cursor equals \<^verbatim>\<open>end\<close>, and is allowed two elements or more,
  reads exactly 1 and 2 and stops with the cursor equal to \<^verbatim>\<open>end\<close>; step by step, the
  cursor at \<^verbatim>\<open>begin\<close> reads 1, the cursor after one increment reads 2, and the cursor
  after the next increment equals \<^verbatim>\<open>end\<close>.
\<close>

theorem two_cells_iterate:
  "(case Cell (2::int) (StreamT_alt Stream_Nil) st of (c2, st1) \<Rightarrow>
      case Cell 1 (StreamT_alt c2) st1 of (c1, st2) \<Rightarrow>
        (\<exists>cur. copy_n (Suc (Suc n)) st2 (std_begin c1) = Inr ([1, 2], cur, st2) \<and>
           equal cur (std_end c1)) \<and>
        (\<exists>it1 it2. dereference st2 (std_begin c1) = Inr 1 \<and>
           increment st2 (std_begin c1) = Inr (it1, st2) \<and>
           dereference st2 it1 = Inr 2 \<and>
           increment st2 it1 = Inr (it2, st2) \<and>
           equal it2 (std_end c1)))"
  by (simp add: Cell_def std_begin_def std_end_def Stream_begin_def Stream_end_def Stream_Nil_def
      equal_def dereference_def increment_def head_def tail_materialized)

subsection \<open>Cursors\<close>

text \<open>
  C7. Two cursors are equal exactly when their locations are the same reference, and two
  cursors at the end are equal. Two cells built one after the other from the same element
  and the same tail are two chains with the same values: their cursors read the same
  value and are not equal.
\<close>

theorem cursor_equality_is_identity:
  "equal it other = (location it = location other) \<and>
   equal Stream_end Stream_end \<and>
   (case Cell e t st of (r1, st1) \<Rightarrow>
      case Cell e t st1 of (r2, st2) \<Rightarrow>
        dereference st2 (std_begin r1) = Inr e \<and>
        dereference st2 (std_begin r2) = Inr e \<and>
        tail_mem st2 (the r1) = tail_mem st2 (the r2) \<and>
        \<not> equal (std_begin r1) (std_begin r2))"
  by (simp add: equal_def Cell_def std_begin_def Stream_begin_def Stream_end_def dereference_def head_def)

text \<open>
  C8. The cursor that \<^verbatim>\<open>std::begin\<close> makes from a reference is located at that
  reference: at the node, whose head it reads, when the reference is not \<^verbatim>\<open>Nil()\<close>, and
  equal to \<^verbatim>\<open>end()\<close> exactly when the reference is \<^verbatim>\<open>Nil()\<close>.
\<close>

theorem begin_is_located_at_reference:
  "location (std_begin r) = r \<and>
   std_begin (Some a) = Stream_begin a \<and>
   location (Stream_begin a) = Some a \<and>
   dereference st (std_begin (Some a)) = head st a \<and>
   std_begin Stream_Nil = Stream_end \<and>
   equal (std_begin r) (std_end r) = (r = Stream_Nil)"
  by (cases r) (simp_all add: std_begin_def std_end_def Stream_begin_def Stream_end_def Stream_Nil_def
      equal_def dereference_def)

subsection \<open>The head\<close>

text \<open>
  C9. \<open>head\<close> reads the memory and returns a value only, no memory. Any number of calls
  of \<^verbatim>\<open>tail()\<close> on the node at \<open>n\<close> return, and leave the head of that node, and of
  every node that existed before, as it was.
\<close>

theorem tail_keeps_heads:
  assumes "well_formed st" and "n < next_addr st"
  shows "\<exists>rs st1. tail_calls k st n = Inr (rs, st1) \<and> head st1 n = head st n \<and>
           (\<forall>b. b < next_addr st \<longrightarrow> head st1 b = head st b)"
proof -
  from tail_calls_ok [OF assms] obtain rs st1 where
    c: "tail_calls k st n = Inr (rs, st1)" and e: "extends st st1" by blast
  have "head st1 b = head st b" if "b < next_addr st" for b
    using e that by (simp add: extends_def head_def)
  then show ?thesis using c assms(2) by blast
qed

theorem tail_keeps_heads_witness:
  "well_formed fib_memory \<and> 0 < next_addr fib_memory \<and>
   (\<exists>rs st1. tail_calls 2 fib_memory 0 = Inr (rs, st1) \<and> head st1 0 = Inr 0 \<and>
      head fib_memory 0 = Inr 0)"
proof -
  have n: "0 < next_addr fib_memory" by (simp add: fib_memory_def Cell_def empty_memory_def)
  have h: "head fib_memory 0 = Inr 0" by (simp add: head_def fib_memory_def Cell_def empty_memory_def)
  from tail_keeps_heads [OF wf_fib_memory n, of 2] h n wf_fib_memory show ?thesis by auto
qed

subsection \<open>map transforms the first element at once\<close>

text \<open>
  C10. \<^verbatim>\<open>map\<close> on the node at \<open>s\<close> returns a new node whose head already is the
  transform of the head of \<open>s\<close>; its tail is the pending functor that will force the tail
  of \<open>s\<close>; no functor has run and the tail slot of \<open>s\<close> is as it was.
\<close>

theorem map_transforms_head_at_once:
  assumes "well_formed st" and "s < next_addr st"
  shows "\<exists>h m st1. head st s = Inr h \<and> Stream_map st s f = Inr (Some m, st1) \<and>
           head st1 m = Inr (f h) \<and>
           tail_mem st1 m = Some (F_alt (UniqueFunction_new (MapF (SrcTail s) f))) \<and>
           invoked st1 = invoked st \<and> tail_mem st1 s = tail_mem st s"
proof -
  obtain h where h: "head_mem st s = Some h" using wf_head [OF assms] by blast
  let ?cell = "Cell (f h) (F_alt (UniqueFunction_new (MapF (SrcTail s) f))) st"
  have "Stream_map st s f = Inr (Some (next_addr st), snd ?cell)"
    using h by (simp add: Stream_map_def MapF_call_def src_call_def head_def Cell_def)
  moreover have "head (snd ?cell) (next_addr st) = Inr (f h)" by (simp add: head_def Cell_def)
  moreover have "tail_mem (snd ?cell) (next_addr st) = Some (F_alt (UniqueFunction_new (MapF (SrcTail s) f)))"
    by (simp add: Cell_def)
  moreover have "invoked (snd ?cell) = invoked st" by (simp add: Cell_def)
  moreover have "tail_mem (snd ?cell) s = tail_mem st s" using assms(2) by (simp add: Cell_def)
  moreover have "head st s = Inr h" using h by (simp add: head_def)
  ultimately show ?thesis by blast
qed

theorem map_transforms_head_at_once_witness:
  "well_formed fib_memory \<and> 0 < next_addr fib_memory \<and>
   (\<exists>st1. Stream_map fib_memory 0 (\<lambda>x. x + 7) = Inr (Some 1, st1) \<and> head st1 1 = Inr 7 \<and>
      invoked st1 = [] \<and> (\<exists>uf. tail_mem st1 0 = Some (F_alt uf)))"
proof -
  have n: "0 < next_addr fib_memory" by (simp add: fib_memory_def Cell_def empty_memory_def)
  have h: "head fib_memory 0 = Inr 0" by (simp add: head_def fib_memory_def Cell_def empty_memory_def)
  have i: "invoked fib_memory = []" by (simp add: fib_memory_def Cell_def empty_memory_def)
  have s: "tail_mem fib_memory 0 = Some (F_alt (UniqueFunction_new (Client (FibStreamF 1 1))))"
    by (simp add: fib_memory_def Cell_def empty_memory_def)
  have m: "Stream_map fib_memory 0 (\<lambda>x. x + 7) =
      Inr (Some 1, snd (Cell 7 (F_alt (UniqueFunction_new (MapF (SrcTail 0) (\<lambda>x. x + 7)))) fib_memory))"
    by (simp add: Stream_map_def MapF_call_def src_call_def head_def fib_memory_def Cell_def empty_memory_def)
  from map_transforms_head_at_once [OF wf_fib_memory n, of "\<lambda>x. x + 7"] h i s m n wf_fib_memory
  show ?thesis by auto
qed

end
